theory Spec2Isabelle
  imports Main "HOL-Library.AList"
begin

section \<open>Strings\<close>

text \<open>
  Python strings are modelled as \<^typ>\<open>string\<close>. \<open>str.lower()\<close> is modelled on the
  ASCII letters: \<open>A\<close>..\<open>Z\<close> are mapped to \<open>a\<close>..\<open>z\<close>, every other character is kept.
  (Python also lowercases letters outside ASCII; every key of the table below is ASCII.)
\<close>

definition lower_char :: "char \<Rightarrow> char" where
  "lower_char c =
     (let n = (of_char c :: nat) in if 65 \<le> n \<and> n \<le> 90 then char_of (n + 32) else c)"

definition lower :: "string \<Rightarrow> string" where
  "lower s = map lower_char s"

text \<open>\<open>s.startswith(t)\<close>.\<close>

definition startswith :: "string \<Rightarrow> string \<Rightarrow> bool" where
  "startswith s t = (take (length t) s = t)"

section \<open>Configuration: extension to folder name\<close>

text \<open>The dictionary \<open>TYPES\<close>, in the order of the source, and \<open>DEFAULT_FOLDER\<close>.\<close>

definition TYPES :: "(string \<times> string) list" where
  "TYPES =
    [(''mp4'', ''Videos''), (''mkv'', ''Videos''), (''mov'', ''Videos''), (''avi'', ''Videos''),
     (''flv'', ''Videos''), (''wmv'', ''Videos''), (''m4v'', ''Videos''),
     (''jpg'', ''Images''), (''jpeg'', ''Images''), (''png'', ''Images''), (''gif'', ''Images''),
     (''webp'', ''Images''), (''heic'', ''Images''), (''svg'', ''Images''), (''bmp'', ''Images''),
     (''tif'', ''Images''), (''tiff'', ''Images''),
     (''pdf'', ''PDFs''),
     (''doc'', ''Documents''), (''docx'', ''Documents''), (''xls'', ''Documents''),
     (''xlsx'', ''Documents''),
     (''ppt'', ''Documents''), (''pptx'', ''Documents''), (''txt'', ''Documents''),
     (''md'', ''Documents''),
     (''rtf'', ''Documents''),
     (''zip'', ''Archives''), (''tar'', ''Archives''), (''gz'', ''Archives''), (''tgz'', ''Archives''),
     (''bz2'', ''Archives''), (''rar'', ''Archives''), (''7z'', ''Archives''),
     (''dmg'', ''Apps''), (''pkg'', ''Apps''), (''exe'', ''Apps''), (''apk'', ''Apps''),
     (''py'', ''Code''), (''js'', ''Code''), (''java'', ''Code''), (''class'', ''Code''),
     (''jar'', ''Code''),
     (''mp3'', ''Audio''), (''wav'', ''Audio''), (''flac'', ''Audio''), (''m4a'', ''Audio'')]"

definition DEFAULT_FOLDER :: string where
  "DEFAULT_FOLDER = ''Other''"

text \<open>\<open>folder_for_ext(ext)\<close>: \<open>TYPES.get(ext.lower(), DEFAULT_FOLDER)\<close>.\<close>

definition folder_for_ext :: "string \<Rightarrow> string" where
  "folder_for_ext ext =
     (case map_of TYPES (lower ext) of Some folder \<Rightarrow> folder | None \<Rightarrow> DEFAULT_FOLDER)"

section \<open>File names\<close>

text \<open>
  \<open>str(i)\<close> for the counter of the probe loop, which starts at 1 and only grows: the
  decimal digits of a natural number.
\<close>

definition digit_char :: "nat \<Rightarrow> char" where
  "digit_char d = char_of (48 + d)"

fun str_nat :: "nat \<Rightarrow> string" where
  "str_nat n = (if n < 10 then [digit_char n] else str_nat (n div 10) @ [digit_char (n mod 10)])"

declare str_nat.simps [simp del]

text \<open>
  \<open>name.rfind('.')\<close> (\<open>None\<close> for Python's \<open>-1\<close>), and \<open>PurePath.suffix\<close> and
  \<open>PurePath.stem\<close> of a path whose last component is \<open>name\<close>: the name is split at its
  last dot, unless that dot is the first or the last character.
\<close>

fun rfind_dot :: "string \<Rightarrow> nat option" where
  "rfind_dot [] = None"
| "rfind_dot (c # cs) =
     (case rfind_dot cs of
        Some i \<Rightarrow> Some (Suc i)
      | None \<Rightarrow> if c = CHR ''.'' then Some 0 else None)"

definition suffix :: "string \<Rightarrow> string" where
  "suffix name =
     (case rfind_dot name of
        Some i \<Rightarrow> if 0 < i \<and> i < length name - 1 then drop i name else []
      | None \<Rightarrow> [])"

definition stem :: "string \<Rightarrow> string" where
  "stem name =
     (case rfind_dot name of
        Some i \<Rightarrow> if 0 < i \<and> i < length name - 1 then take i name else name
      | None \<Rightarrow> name)"

section \<open>The filesystem\<close>

text \<open>
  A path is the list of its components from the filesystem root; \<open>dest_dir / name\<close> is
  \<open>dest_dir @ [name]\<close> for a name of one component, as \<open>iterdir\<close> yields them. The
  filesystem is a tree: a file with its content, or a directory with its entries in
  enumeration order. A directory holds finitely many entries.
\<close>

type_synonym path = "string list"

datatype node = File string | Dir "(string \<times> node) list"

datatype error =
    FileNotFoundError | NotADirectoryError | FileExistsError | ShutilError | ValueError

fun lookup :: "node \<Rightarrow> path \<Rightarrow> node option" where
  "lookup nd [] = Some nd"
| "lookup (File c) (n # p) = None"
| "lookup (Dir es) (n # p) = (case map_of es n of None \<Rightarrow> None | Some ch \<Rightarrow> lookup ch p)"

definition exists :: "node \<Rightarrow> path \<Rightarrow> bool" where
  "exists fs p = (lookup fs p \<noteq> None)"

definition is_dir :: "node \<Rightarrow> path \<Rightarrow> bool" where
  "is_dir fs p = (case lookup fs p of Some (Dir es) \<Rightarrow> True | _ \<Rightarrow> False)"

text \<open>\<open>Path.iterdir()\<close>: the names in the directory, listed when the loop starts.\<close>

definition iterdir :: "node \<Rightarrow> path \<Rightarrow> error + string list" where
  "iterdir fs p =
     (case lookup fs p of
        None \<Rightarrow> Inl FileNotFoundError
      | Some (File c) \<Rightarrow> Inl NotADirectoryError
      | Some (Dir es) \<Rightarrow> Inr (map fst es))"

text \<open>
  \<open>put fs p nd\<close> stores \<open>nd\<close> at \<open>p\<close> (replacing what is there, or as a new last entry
  of the parent directory); \<open>del fs p\<close> removes the entry at \<open>p\<close>. Both leave the tree
  as it is when the parent of \<open>p\<close> is not a directory.
\<close>

fun put :: "node \<Rightarrow> path \<Rightarrow> node \<Rightarrow> node" where
  "put fs [] nd = nd"
| "put (File c) (n # p) nd = File c"
| "put (Dir es) (n # p) nd =
     (if p = [] then Dir (AList.update n nd es)
      else case map_of es n of
             None \<Rightarrow> Dir es
           | Some ch \<Rightarrow> Dir (AList.update n (put ch p nd) es))"

fun del :: "node \<Rightarrow> path \<Rightarrow> node" where
  "del fs [] = fs"
| "del (File c) (n # p) = File c"
| "del (Dir es) (n # p) =
     (if p = [] then Dir (AList.delete n es)
      else case map_of es n of
             None \<Rightarrow> Dir es
           | Some ch \<Rightarrow> Dir (AList.update n (del ch p) es))"

text \<open>
  \<open>Path.mkdir(parents=True, exist_ok=True)\<close>: creates the directory and the missing
  directories above it; an existing directory is left as it is; a file at the path or
  above it is an error.
\<close>

fun mkdir :: "node \<Rightarrow> path \<Rightarrow> error + node" where
  "mkdir (Dir es) [] = Inr (Dir es)"
| "mkdir (File c) [] = Inl FileExistsError"
| "mkdir (File c) (n # p) = Inl NotADirectoryError"
| "mkdir (Dir es) (n # p) =
     (case mkdir (case map_of es n of None \<Rightarrow> Dir [] | Some ch \<Rightarrow> ch) p of
        Inl e \<Rightarrow> Inl e
      | Inr ch' \<Rightarrow> Inr (Dir (AList.update n ch' es)))"

text \<open>
  \<open>shutil.move(src, dst)\<close> within one filesystem. A destination that is a directory
  receives the source under its own name, unless that name is taken. Otherwise the source
  is renamed to \<open>dst\<close>, replacing a file there; the parent of the destination must be a
  directory. A source that is a directory cannot replace an existing entry nor move below
  itself.
\<close>

definition shutil_move :: "node \<Rightarrow> path \<Rightarrow> path \<Rightarrow> error + node" where
  "shutil_move fs src dst =
     (let real_dst = (if is_dir fs dst then dst @ [last src] else dst) in
      if is_dir fs dst \<and> exists fs real_dst then Inl ShutilError
      else case lookup fs src of
        None \<Rightarrow> Inl FileNotFoundError
      | Some nd \<Rightarrow>
          if src = [] \<or> real_dst = [] then Inl ShutilError
          else if is_dir fs src \<and> take (length src) real_dst = src then Inl ShutilError
          else if is_dir fs src \<and> exists fs real_dst then Inl FileExistsError
          else if \<not> exists fs (butlast real_dst) then Inl FileNotFoundError
          else if \<not> is_dir fs (butlast real_dst) then Inl NotADirectoryError
          else Inr (put (del fs src) real_dst nd))"

text \<open>\<open>p.relative_to(base)\<close>: fails unless \<open>base\<close> is a prefix of \<open>p\<close>.\<close>

definition relative_to :: "path \<Rightarrow> path \<Rightarrow> error + path" where
  "relative_to p base =
     (if take (length base) p = base then Inr (drop (length base) p) else Inl ValueError)"

section \<open>Collision resolution\<close>

text \<open>
  The name \<open>f"{stem} ({i}){suffix}"\<close>, and the loop \<open>while True\<close> of \<open>unique_target\<close>,
  entered with the counter \<open>i\<close>. The loop has no bound, so it is a partial function:
  \<open>None\<close> stands for a run that never returns.
\<close>

definition candidate_name :: "string \<Rightarrow> nat \<Rightarrow> string \<Rightarrow> string" where
  "candidate_name stm i sfx = stm @ '' ('' @ str_nat i @ '')'' @ sfx"

partial_function (option) unique_target_loop ::
    "node \<Rightarrow> path \<Rightarrow> string \<Rightarrow> string \<Rightarrow> nat \<Rightarrow> path option" where
  "unique_target_loop fs dest_dir stm sfx i =
     (let candidate = dest_dir @ [candidate_name stm i sfx] in
      if \<not> exists fs candidate then Some candidate
      else unique_target_loop fs dest_dir stm sfx (i + 1))"

definition unique_target :: "node \<Rightarrow> path \<Rightarrow> string \<Rightarrow> path option" where
  "unique_target fs dest_dir name =
     (let dest = dest_dir @ [name] in
      if \<not> exists fs dest then Some dest
      else unique_target_loop fs dest_dir (stem name) (suffix name) 1)"

section \<open>The organizer\<close>

text \<open>
  What a run prints, with the arguments of each message. A run carries the filesystem
  and the lines written so far to standard output and to standard error.
\<close>

datatype msg =
    ErrNotADirectory path
  | Organizing bool path
  | WouldCreateFolder path
  | CreatedFolder path
  | WouldMove string path
  | Moved string path
  | Done

record run =
  disk :: node
  stdout :: "msg list"
  stderr :: "msg list"

definition print :: "msg \<Rightarrow> run \<Rightarrow> run" where
  "print m r = r\<lparr>stdout := stdout r @ [m]\<rparr>"

text \<open>
  \<open>item_folder\<close> is the folder name the loop body computes from the name of the item:
  the extension is the suffix without its dot, lowercased, and a name without suffix goes
  to \<open>DEFAULT_FOLDER\<close>.

  The body of the \<open>for\<close> loop for one listed name. The result is \<open>None\<close> when the probe
  loop never returns, \<open>Some (r, Some e)\<close> when the exception \<open>e\<close> leaves the loop in
  state \<open>r\<close>, and \<open>Some (r, None)\<close> when the loop goes on to the next item.
\<close>

definition item_folder :: "string \<Rightarrow> string" where
  "item_folder name =
     (let ext = (if suffix name \<noteq> [] then lower (tl (suffix name)) else [])
      in if ext \<noteq> [] then folder_for_ext ext else DEFAULT_FOLDER)"

definition organize_item :: "path \<Rightarrow> bool \<Rightarrow> string \<Rightarrow> run \<Rightarrow> (run \<times> error option) option" where
  "organize_item downloads dry_run name r =
     (let item = downloads @ [name] in
      if is_dir (disk r) item then Some (r, None)
      else if startswith name ''.'' then Some (r, None)
      else
        let folder_name = item_folder name;
            target_dir = downloads @ [folder_name];
            made =
              (if \<not> exists (disk r) target_dir then
                 if dry_run then Inr (print (WouldCreateFolder target_dir) r)
                 else (case mkdir (disk r) target_dir of
                         Inl e \<Rightarrow> Inl e
                       | Inr fs' \<Rightarrow> Inr (print (CreatedFolder target_dir) (r\<lparr>disk := fs'\<rparr>)))
               else Inr r)
        in case made of
             Inl e \<Rightarrow> Some (r, Some e)
           | Inr r1 \<Rightarrow>
               (case unique_target (disk r1) target_dir name of
                  None \<Rightarrow> None
                | Some target_path \<Rightarrow>
                    if dry_run then
                      (case relative_to target_path downloads of
                         Inl e \<Rightarrow> Some (r1, Some e)
                       | Inr rel \<Rightarrow> Some (print (WouldMove name rel) r1, None))
                    else
                      (case shutil_move (disk r1) item target_path of
                         Inl e \<Rightarrow> Some (r1, Some e)
                       | Inr fs' \<Rightarrow>
                           (case relative_to target_path downloads of
                              Inl e \<Rightarrow> Some (r1\<lparr>disk := fs'\<rparr>, Some e)
                            | Inr rel \<Rightarrow> Some (print (Moved name rel) (r1\<lparr>disk := fs'\<rparr>), None)))))"

text \<open>
  The \<open>for\<close> loop over the listed names, then \<open>print("Done.")\<close> and \<open>return 0\<close>.
  An outcome is the final state with the exception raised (\<open>Inl\<close>) or the value
  returned (\<open>Inr\<close>).
\<close>

fun organize_items ::
    "path \<Rightarrow> bool \<Rightarrow> string list \<Rightarrow> run \<Rightarrow> (run \<times> (error + int)) option" where
  "organize_items downloads dry_run [] r = Some (print Done r, Inr 0)"
| "organize_items downloads dry_run (name # names) r =
     (case organize_item downloads dry_run name r of
        None \<Rightarrow> None
      | Some (r', Some e) \<Rightarrow> Some (r', Inl e)
      | Some (r', None) \<Rightarrow> organize_items downloads dry_run names r')"

definition organize :: "node \<Rightarrow> path \<Rightarrow> bool \<Rightarrow> (run \<times> (error + int)) option" where
  "organize fs0 downloads dry_run =
     (let r0 = \<lparr>disk = fs0, stdout = [], stderr = []\<rparr> in
      if \<not> exists fs0 downloads \<or> \<not> is_dir fs0 downloads then
        Some (r0\<lparr>stderr := [ErrNotADirectory downloads]\<rparr>, Inr 1)
      else
        let r1 = print (Organizing dry_run downloads) r0 in
        case iterdir fs0 downloads of
          Inl e \<Rightarrow> Some (r1, Inl e)
        | Inr names \<Rightarrow> organize_items downloads dry_run names r1)"

section \<open>Properties of the classifier\<close>

lemma lower_char_idem: "lower_char (lower_char c) = lower_char c"
  by (simp add: lower_char_def Let_def)

lemma lower_idem: "lower (lower s) = lower s"
  by (simp add: lower_def lower_char_idem)

text \<open>
  C6. When the lowercased extension is a key of \<open>TYPES\<close>, the classifier gives the same
  folder for the extension and for its lowercasing, and that folder is the one the table
  configures for the key.
\<close>

theorem folder_for_ext_case_insensitive:
  assumes "map_of TYPES (lower e) = Some folder"
  shows "folder_for_ext e = folder_for_ext (lower e) \<and> folder_for_ext e = folder"
  using assms by (simp add: folder_for_ext_def lower_idem)

theorem folder_for_ext_case_insensitive_witness:
  "map_of TYPES (lower ''JpG'') = Some ''Images'' \<and>
   folder_for_ext ''JpG'' = folder_for_ext (lower ''JpG'') \<and> folder_for_ext ''JpG'' = ''Images''"
proof -
  have h: "map_of TYPES (lower ''JpG'') = Some ''Images''"
    by code_simp
  from h folder_for_ext_case_insensitive [OF h] show ?thesis by blast
qed

text \<open>
  C7. When the lowercased extension (the empty string included) is not a key of \<open>TYPES\<close>,
  the classifier gives \<open>DEFAULT_FOLDER\<close>. The classifier is a function of its argument
  alone, defined on every string: it reads no state and has no error result.
\<close>

theorem folder_for_ext_default:
  assumes "map_of TYPES (lower e) = None"
  shows "folder_for_ext e = DEFAULT_FOLDER"
  using assms by (simp add: folder_for_ext_def)

theorem folder_for_ext_default_witness:
  "map_of TYPES (lower ''XyZ'') = None \<and> folder_for_ext ''XyZ'' = DEFAULT_FOLDER \<and>
   map_of TYPES (lower []) = None \<and> folder_for_ext [] = DEFAULT_FOLDER"
proof -
  have h1: "map_of TYPES (lower ''XyZ'') = None"
    by code_simp
  have h2: "map_of TYPES (lower []) = None"
    by code_simp
  from h1 h2 folder_for_ext_default [OF h1] folder_for_ext_default [OF h2] show ?thesis by blast
qed

section \<open>Properties of file names and of the filesystem\<close>

lemma str_nat_nonempty: "str_nat n \<noteq> []"
  by (subst str_nat.simps) simp

lemma digit_char_inj: "a < 10 \<Longrightarrow> b < 10 \<Longrightarrow> digit_char a = digit_char b \<Longrightarrow> a = b"
  by (simp add: digit_char_def char_of_eq_iff take_bit_eq_mod)

lemma str_nat_inj: "str_nat a = str_nat b \<Longrightarrow> a = b"
proof (induction a arbitrary: b rule: less_induct)
  case (less a)
  show ?case
  proof (cases "a < 10")
    case True
    note a = this
    show ?thesis
    proof (cases "b < 10")
      case True
      with a less.prems show ?thesis
        by (simp add: str_nat.simps [of a] str_nat.simps [of b] digit_char_inj)
    next
      case False
      with a less.prems str_nat_nonempty [of "b div 10"] show ?thesis
        by (simp add: str_nat.simps [of a] str_nat.simps [of b])
    qed
  next
    case False
    note a = this
    show ?thesis
    proof (cases "b < 10")
      case True
      with a less.prems str_nat_nonempty [of "a div 10"] show ?thesis
        by (simp add: str_nat.simps [of a] str_nat.simps [of b])
    next
      case False
      with a less.prems have e: "str_nat (a div 10) = str_nat (b div 10)"
        and d: "digit_char (a mod 10) = digit_char (b mod 10)"
        by (simp_all add: str_nat.simps [of a] str_nat.simps [of b])
      from a have "a div 10 < a" by simp
      from less.IH [OF this e] have q: "a div 10 = b div 10" .
      from d have r: "a mod 10 = b mod 10" by (simp add: digit_char_inj)
      from q r show ?thesis by (metis div_mult_mod_eq)
    qed
  qed
qed

lemma candidate_name_inj: "candidate_name stm i sfx = candidate_name stm j sfx \<Longrightarrow> i = j"
  by (simp add: candidate_name_def str_nat_inj)

lemma lookup_append:
  "lookup nd (p @ q) = (case lookup nd p of None \<Rightarrow> None | Some ch \<Rightarrow> lookup ch q)"
  by (induction nd p rule: lookup.induct) (auto split: option.splits)

lemma finite_entries: "finite {n. exists fs (d @ [n])}"
proof (cases "lookup fs d")
  case None
  then show ?thesis by (simp add: exists_def lookup_append)
next
  case (Some nd)
  show ?thesis
  proof (cases nd)
    case (File c)
    with Some show ?thesis by (simp add: exists_def lookup_append)
  next
    case (Dir es)
    with Some have "{n. exists fs (d @ [n])} \<subseteq> fst ` set es"
      by (auto simp: exists_def lookup_append dest!: map_of_SomeD split: option.splits intro: rev_image_eqI)
    then show ?thesis by (rule finite_subset) simp
  qed
qed

section \<open>Properties of collision resolution\<close>

lemma free_candidate: "\<exists>k\<ge>i. \<not> exists fs (d @ [candidate_name stm k sfx])"
proof (rule ccontr)
  assume "\<not> ?thesis"
  then have all: "\<And>k. i \<le> k \<Longrightarrow> exists fs (d @ [candidate_name stm k sfx])" by blast
  let ?S = "{n. exists fs (d @ [n])}"
  let ?f = "\<lambda>k. candidate_name stm k sfx"
  have inj: "inj_on ?f {i..}"
    by (rule inj_onI) (erule candidate_name_inj)
  have "?f ` {i..} \<subseteq> ?S" using all by auto
  then have "finite (?f ` {i..})" by (rule finite_subset) (rule finite_entries)
  then have "finite {i..}" using inj by (simp add: finite_image_iff)
  then show False by (simp add: infinite_Ici)
qed

lemma loop_first_free:
  assumes "i \<le> k" and "\<not> exists fs (d @ [candidate_name stm k sfx])"
    and "\<And>j. i \<le> j \<Longrightarrow> j < k \<Longrightarrow> exists fs (d @ [candidate_name stm j sfx])"
  shows "unique_target_loop fs d stm sfx i = Some (d @ [candidate_name stm k sfx])"
  using assms
proof (induction "k - i" arbitrary: i)
  case 0
  then have "i = k" by simp
  with "0.prems" show ?case by (subst unique_target_loop.simps) simp
next
  case (Suc m)
  then have lt: "i < k" by simp
  with Suc.prems have ex: "exists fs (d @ [candidate_name stm i sfx])" by simp
  have "unique_target_loop fs d stm sfx (i + 1) = Some (d @ [candidate_name stm k sfx])"
  proof (rule Suc.hyps(1))
    show "m = k - (i + 1)" using Suc.hyps(2) by simp
    show "i + 1 \<le> k" using lt by simp
    show "\<not> exists fs (d @ [candidate_name stm k sfx])" by (rule Suc.prems(2))
    show "\<And>j. i + 1 \<le> j \<Longrightarrow> j < k \<Longrightarrow> exists fs (d @ [candidate_name stm j sfx])"
      using Suc.prems(3) by simp
  qed
  with ex show ?case by (subst unique_target_loop.simps) simp
qed

lemma loop_returns:
  "\<exists>k\<ge>i. unique_target_loop fs d stm sfx i = Some (d @ [candidate_name stm k sfx]) \<and>
     \<not> exists fs (d @ [candidate_name stm k sfx]) \<and>
     (\<forall>j. i \<le> j \<and> j < k \<longrightarrow> exists fs (d @ [candidate_name stm j sfx]))"
proof -
  let ?P = "\<lambda>k. i \<le> k \<and> \<not> exists fs (d @ [candidate_name stm k sfx])"
  from free_candidate [of i fs d stm sfx] have "\<exists>k. ?P k" by blast
  then have P: "?P (LEAST k. ?P k)" by (rule LeastI_ex)
  have least: "\<And>j. i \<le> j \<Longrightarrow> j < (LEAST k. ?P k) \<Longrightarrow> exists fs (d @ [candidate_name stm j sfx])"
    using not_less_Least [of _ ?P] by blast
  from P least have "unique_target_loop fs d stm sfx i = Some (d @ [candidate_name stm (LEAST k. ?P k) sfx])"
    by (intro loop_first_free) auto
  with P least show ?thesis by blast
qed

lemma stem_suffix: "stem name @ suffix name = name"
  by (simp add: stem_def suffix_def split: option.splits)

lemma rfind_dot_nth: "rfind_dot s = Some i \<Longrightarrow> i < length s \<and> s ! i = CHR ''.''"
  by (induction s arbitrary: i) (auto split: option.splits if_splits)

lemma suffix_dot: "suffix name = [] \<or> hd (suffix name) = CHR ''.''"
  by (auto simp: suffix_def hd_drop_conv_nth split: option.splits dest: rfind_dot_nth)

text \<open>
  C3. \<open>unique_target\<close> returns \<open>dest_dir / name\<close> when that path does not exist. Otherwise
  it returns the candidate \<open>stem + " (i)" + suffix\<close> for the smallest \<open>i \<ge> 1\<close> whose
  candidate does not exist, where stem and suffix split the name and a suffix that is not
  empty starts with the dot. The path returned never exists in the state of the call, and
  two states with the same entries in \<open>dest_dir\<close> give the same result.
\<close>

theorem unique_target_spec:
  "(\<not> exists fs (d @ [name]) \<longrightarrow> unique_target fs d name = Some (d @ [name])) \<and>
   (exists fs (d @ [name]) \<longrightarrow>
      (\<exists>i\<ge>1. unique_target fs d name = Some (d @ [candidate_name (stem name) i (suffix name)]) \<and>
         \<not> exists fs (d @ [candidate_name (stem name) i (suffix name)]) \<and>
         (\<forall>j. 1 \<le> j \<and> j < i \<longrightarrow> exists fs (d @ [candidate_name (stem name) j (suffix name)])))) \<and>
   stem name @ suffix name = name \<and> (suffix name = [] \<or> hd (suffix name) = CHR ''.'') \<and>
   (\<forall>p. unique_target fs d name = Some p \<longrightarrow> \<not> exists fs p) \<and>
   (\<forall>fs'. (\<forall>n. exists fs' (d @ [n]) = exists fs (d @ [n])) \<longrightarrow>
      unique_target fs' d name = unique_target fs d name)"
proof (intro conjI allI impI)
  assume "\<not> exists fs (d @ [name])"
  then show "unique_target fs d name = Some (d @ [name])" by (simp add: unique_target_def)
next
  assume "exists fs (d @ [name])"
  with loop_returns [of 1 fs d "stem name" "suffix name"]
  show "\<exists>i\<ge>1. unique_target fs d name = Some (d @ [candidate_name (stem name) i (suffix name)]) \<and>
         \<not> exists fs (d @ [candidate_name (stem name) i (suffix name)]) \<and>
         (\<forall>j. 1 \<le> j \<and> j < i \<longrightarrow> exists fs (d @ [candidate_name (stem name) j (suffix name)]))"
    by (simp add: unique_target_def)
next
  show "stem name @ suffix name = name" by (rule stem_suffix)
next
  show "suffix name = [] \<or> hd (suffix name) = CHR ''.''" by (rule suffix_dot)
next
  fix p assume p: "unique_target fs d name = Some p"
  show "\<not> exists fs p"
  proof (cases "exists fs (d @ [name])")
    case False
    with p show ?thesis by (simp add: unique_target_def)
  next
    case True
    from loop_returns [of 1 fs d "stem name" "suffix name"] obtain k where
      "unique_target_loop fs d (stem name) (suffix name) 1 =
         Some (d @ [candidate_name (stem name) k (suffix name)])"
      "\<not> exists fs (d @ [candidate_name (stem name) k (suffix name)])"
      by blast
    with p True show ?thesis by (simp add: unique_target_def)
  qed
next
  fix fs' assume same: "\<forall>n. exists fs' (d @ [n]) = exists fs (d @ [n])"
  show "unique_target fs' d name = unique_target fs d name"
  proof (cases "exists fs (d @ [name])")
    case False
    with same show ?thesis by (simp add: unique_target_def)
  next
    case True
    from loop_returns [of 1 fs d "stem name" "suffix name"] obtain k where
      k: "1 \<le> k" "unique_target_loop fs d (stem name) (suffix name) 1 = Some (d @ [candidate_name (stem name) k (suffix name)])"
        "\<not> exists fs (d @ [candidate_name (stem name) k (suffix name)])"
        "\<And>j. 1 \<le> j \<Longrightarrow> j < k \<Longrightarrow> exists fs (d @ [candidate_name (stem name) j (suffix name)])"
      by blast
    have "unique_target_loop fs' d (stem name) (suffix name) 1 = Some (d @ [candidate_name (stem name) k (suffix name)])"
      using k same by (intro loop_first_free) auto
    with k(2) True same show ?thesis by (simp add: unique_target_def)
  qed
qed

theorem unique_target_spec_witness:
  "exists (Dir [(''PDFs'', Dir [(''report.pdf'', File ''old''), (''report (1).pdf'', File ''new'')])])
      ([''PDFs''] @ [''report.pdf'']) \<and>
   unique_target (Dir [(''PDFs'', Dir [(''report.pdf'', File ''old''), (''report (1).pdf'', File ''new'')])])
      [''PDFs''] ''report.pdf'' = Some [''PDFs'', ''report (2).pdf''] \<and>
   \<not> exists (Dir [(''PDFs'', Dir [(''report.pdf'', File ''old''), (''report (1).pdf'', File ''new'')])])
      [''PDFs'', ''report (2).pdf''] \<and>
   (\<exists>i\<ge>1. unique_target (Dir [(''PDFs'', Dir [(''report.pdf'', File ''old''), (''report (1).pdf'', File ''new'')])])
      [''PDFs''] ''report.pdf'' =
      Some ([''PDFs''] @ [candidate_name (stem ''report.pdf'') i (suffix ''report.pdf'')]))"
proof -
  let ?W = "Dir [(''PDFs'', Dir [(''report.pdf'', File ''old''), (''report (1).pdf'', File ''new'')])]"
  have ex: "exists ?W ([''PDFs''] @ [''report.pdf''])"
    by code_simp
  have res: "unique_target ?W [''PDFs''] ''report.pdf'' = Some [''PDFs'', ''report (2).pdf'']"
    unfolding unique_target_def
    by (subst unique_target_loop.simps, subst unique_target_loop.simps, code_simp)
  from unique_target_spec [of ?W "[''PDFs'']" "''report.pdf''"] ex res
  show ?thesis by blast
qed

text \<open>
  C9. \<open>unique_target\<close> returns for every state, directory and name, although its loop has
  no bound on the counter: a directory of the model holds finitely many entries
  (\<open>finite_entries\<close>), the candidate names of different counters differ
  (\<open>candidate_name_inj\<close>), so some candidate is free (\<open>free_candidate\<close>).
\<close>

theorem unique_target_terminates: "\<exists>p. unique_target fs d name = Some p"
proof (cases "exists fs (d @ [name])")
  case False
  then show ?thesis by (simp add: unique_target_def)
next
  case True
  from loop_returns [of 1 fs d "stem name" "suffix name"] obtain k where
    "unique_target_loop fs d (stem name) (suffix name) 1 =
       Some (d @ [candidate_name (stem name) k (suffix name)])"
    by blast
  with True show ?thesis by (simp add: unique_target_def)
qed

theorem unique_target_terminates_witness:
  "exists (Dir [(''PDFs'', Dir [(''report.pdf'', File ''old'')])]) ([''PDFs''] @ [''report.pdf'']) \<and>
   (\<exists>p. unique_target (Dir [(''PDFs'', Dir [(''report.pdf'', File ''old'')])]) [''PDFs'']
      ''report.pdf'' = Some p)"
proof -
  have h: "exists (Dir [(''PDFs'', Dir [(''report.pdf'', File ''old'')])]) ([''PDFs''] @ [''report.pdf''])"
    by (simp add: exists_def)
  from h unique_target_terminates [of "Dir [(''PDFs'', Dir [(''report.pdf'', File ''old'')])]"
      "[''PDFs'']" "''report.pdf''"]
  show ?thesis by blast
qed

section \<open>Properties of the organizer: dry runs and invalid roots\<close>

lemma unique_target_fresh:
  "\<exists>x. unique_target fs d name = Some (d @ [x]) \<and> \<not> exists fs (d @ [x])"
proof (cases "exists fs (d @ [name])")
  case False
  then show ?thesis by (simp add: unique_target_def)
next
  case True
  from loop_returns [of 1 fs d "stem name" "suffix name"] obtain k where
    "unique_target_loop fs d (stem name) (suffix name) 1 =
       Some (d @ [candidate_name (stem name) k (suffix name)])"
    "\<not> exists fs (d @ [candidate_name (stem name) k (suffix name)])"
    by blast
  with True show ?thesis by (simp add: unique_target_def)
qed

lemma relative_to_append: "relative_to (d @ q) d = Inr q"
  by (simp add: relative_to_def)

lemma organize_item_dry:
  "\<exists>x. organize_item d True n r =
     Some (r\<lparr>stdout := stdout r @
               (if is_dir (disk r) (d @ [n]) \<or> startswith n ''.'' then []
                else (if exists (disk r) (d @ [item_folder n]) then []
                      else [WouldCreateFolder (d @ [item_folder n])]) @
                     [WouldMove n [item_folder n, x]])\<rparr>, None)"
proof -
  from unique_target_fresh [of "disk r" "d @ [item_folder n]" n] obtain x where
    x: "unique_target (disk r) (d @ [item_folder n]) n = Some (d @ [item_folder n] @ [x])"
    by auto
  have rel: "relative_to (d @ [item_folder n, x]) d = Inr [item_folder n, x]"
    by (rule relative_to_append)
  show ?thesis
    by (rule exI [of _ x]) (simp add: organize_item_def Let_def x rel print_def)
qed

lemma organize_items_dry:
  "\<exists>out. organize_items d True ns r = Some (r\<lparr>stdout := stdout r @ out\<rparr>, Inr 0) \<and>
     (\<forall>folder. count_list out (WouldCreateFolder (d @ [folder])) =
        (if exists (disk r) (d @ [folder]) then 0
         else length (filter (\<lambda>n. \<not> is_dir (disk r) (d @ [n]) \<and> \<not> startswith n ''.'' \<and>
                                   item_folder n = folder) ns)))"
proof (induction ns arbitrary: r)
  case Nil
  show ?case by (rule exI [of _ "[Done]"]) (simp add: print_def)
next
  case (Cons n ns)
  from organize_item_dry [of d n r] obtain x where
    x: "organize_item d True n r =
     Some (r\<lparr>stdout := stdout r @
               (if is_dir (disk r) (d @ [n]) \<or> startswith n ''.'' then []
                else (if exists (disk r) (d @ [item_folder n]) then []
                      else [WouldCreateFolder (d @ [item_folder n])]) @
                     [WouldMove n [item_folder n, x]])\<rparr>, None)" (is "_ = Some (?r', None)")
    by blast
  let ?o1 = "(if is_dir (disk r) (d @ [n]) \<or> startswith n ''.'' then []
                else (if exists (disk r) (d @ [item_folder n]) then []
                      else [WouldCreateFolder (d @ [item_folder n])]) @
                     [WouldMove n [item_folder n, x]])"
  from Cons.IH [of ?r'] obtain out where
    out: "organize_items d True ns ?r' = Some (?r'\<lparr>stdout := stdout ?r' @ out\<rparr>, Inr 0)"
    and cnt: "\<And>folder. count_list out (WouldCreateFolder (d @ [folder])) =
        (if exists (disk ?r') (d @ [folder]) then 0
         else length (filter (\<lambda>n. \<not> is_dir (disk ?r') (d @ [n]) \<and> \<not> startswith n ''.'' \<and>
                                   item_folder n = folder) ns))"
    by blast
  show ?case
  proof (intro exI [of _ "?o1 @ out"] conjI allI)
    show "organize_items d True (n # ns) r = Some (r\<lparr>stdout := stdout r @ ?o1 @ out\<rparr>, Inr 0)"
      using x out by simp
  next
    fix folder
    show "count_list (?o1 @ out) (WouldCreateFolder (d @ [folder])) =
        (if exists (disk r) (d @ [folder]) then 0
         else length (filter (\<lambda>n. \<not> is_dir (disk r) (d @ [n]) \<and> \<not> startswith n ''.'' \<and>
                                   item_folder n = folder) (n # ns)))"
      using cnt [of folder] by auto
  qed
qed

text \<open>
  C1. A dry run returns, and the filesystem of its final state is the filesystem it
  started from, whatever it printed: no folder is created and no file is moved. It
  returns 0 for a root that is a directory and 1 otherwise.
\<close>

theorem organize_dry_run_no_mutation:
  "\<exists>r. organize fs d True = Some (r, Inr (if exists fs d \<and> is_dir fs d then 0 else 1)) \<and>
       disk r = fs"
proof (cases "exists fs d \<and> is_dir fs d")
  case False
  then show ?thesis by (auto simp: organize_def)
next
  case True
  then obtain names where names: "iterdir fs d = Inr names"
    by (auto simp: iterdir_def is_dir_def split: option.splits node.splits)
  let ?r1 = "print (Organizing True d) \<lparr>disk = fs, stdout = [], stderr = []\<rparr>"
  from organize_items_dry [of d names ?r1] obtain out where
    "organize_items d True names ?r1 = Some (?r1\<lparr>stdout := stdout ?r1 @ out\<rparr>, Inr 0)"
    by blast
  with True names show ?thesis by (simp add: organize_def print_def)
qed

theorem organize_dry_run_no_mutation_witness:
  "exists (Dir [(''a.txt'', File ''1''), (''b.txt'', File ''2'')]) [] \<and>
   is_dir (Dir [(''a.txt'', File ''1''), (''b.txt'', File ''2'')]) [] \<and>
   (\<exists>r. organize (Dir [(''a.txt'', File ''1''), (''b.txt'', File ''2'')]) [] True = Some (r, Inr 0) \<and>
      disk r = Dir [(''a.txt'', File ''1''), (''b.txt'', File ''2'')])"
proof -
  have h: "exists (Dir [(''a.txt'', File ''1''), (''b.txt'', File ''2'')]) [] \<and>
      is_dir (Dir [(''a.txt'', File ''1''), (''b.txt'', File ''2'')]) []"
    by (simp add: exists_def is_dir_def)
  from h organize_dry_run_no_mutation [of "Dir [(''a.txt'', File ''1''), (''b.txt'', File ''2'')]" "[]"]
  show ?thesis by simp
qed

text \<open>
  C2. For a root that does not exist or is not a directory, \<open>organize\<close> (live or dry)
  leaves the filesystem as it is, writes the error message to standard error and nothing
  to standard output, and returns 1.
\<close>

theorem organize_invalid_root:
  assumes "\<not> exists fs d \<or> \<not> is_dir fs d"
  shows "organize fs d dry_run =
           Some (\<lparr>disk = fs, stdout = [], stderr = [ErrNotADirectory d]\<rparr>, Inr 1)"
  using assms by (auto simp: organize_def)

theorem organize_invalid_root_witness:
  "\<not> exists (Dir [(''notes'', File ''x'')]) [''Downloads''] \<and>
   organize (Dir [(''notes'', File ''x'')]) [''Downloads''] False =
     Some (\<lparr>disk = Dir [(''notes'', File ''x'')], stdout = [],
            stderr = [ErrNotADirectory [''Downloads'']]\<rparr>, Inr 1) \<and>
   \<not> is_dir (Dir [(''notes'', File ''x'')]) [''notes''] \<and>
   organize (Dir [(''notes'', File ''x'')]) [''notes''] True =
     Some (\<lparr>disk = Dir [(''notes'', File ''x'')], stdout = [],
            stderr = [ErrNotADirectory [''notes'']]\<rparr>, Inr 1)"
proof -
  have h1: "\<not> exists (Dir [(''notes'', File ''x'')]) [''Downloads'']"
    by (simp add: exists_def)
  have h2: "\<not> is_dir (Dir [(''notes'', File ''x'')]) [''notes'']"
    by (simp add: is_dir_def)
  from h1 h2 organize_invalid_root [OF disjI1, OF h1, of False]
    organize_invalid_root [OF disjI2, OF h2, of True]
  show ?thesis by blast
qed

lemma item_folder_a_txt: "item_folder ''a.txt'' = ''Documents''"
  by code_simp

lemma item_folder_b_txt: "item_folder ''b.txt'' = ''Documents''"
  by code_simp

lemma dry_run_two_documents:
  "organize (Dir [(''a.txt'', File ''1''), (''b.txt'', File ''2'')]) [] True =
     Some (\<lparr>disk = Dir [(''a.txt'', File ''1''), (''b.txt'', File ''2'')],
            stdout = [Organizing True [], WouldCreateFolder [''Documents''],
                      WouldMove ''a.txt'' [''Documents'', ''a.txt''],
                      WouldCreateFolder [''Documents''],
                      WouldMove ''b.txt'' [''Documents'', ''b.txt''], Done],
            stderr = []\<rparr>, Inr 0)"
  by (simp add: organize_def exists_def is_dir_def iterdir_def print_def organize_item_def
      startswith_def item_folder_a_txt item_folder_b_txt unique_target_def relative_to_def
      Let_def)

text \<open>
  C8, as stated, fails: a dry run over a directory with two text files and no folder
  \<open>Documents\<close> prints that the folder would be created twice, once before each
  of the two moves.
\<close>

theorem would_create_twice:
  "organize (Dir [(''a.txt'', File ''1''), (''b.txt'', File ''2'')]) [] True =
     Some (\<lparr>disk = Dir [(''a.txt'', File ''1''), (''b.txt'', File ''2'')],
            stdout = [Organizing True [], WouldCreateFolder [''Documents''],
                      WouldMove ''a.txt'' [''Documents'', ''a.txt''],
                      WouldCreateFolder [''Documents''],
                      WouldMove ''b.txt'' [''Documents'', ''b.txt''], Done],
            stderr = []\<rparr>, Inr 0) \<and>
   count_list [Organizing True [], WouldCreateFolder [''Documents''],
               WouldMove ''a.txt'' [''Documents'', ''a.txt''],
               WouldCreateFolder [''Documents''],
               WouldMove ''b.txt'' [''Documents'', ''b.txt''], Done]
     (WouldCreateFolder [''Documents'']) = 2"
  using dry_run_two_documents by simp

text \<open>
  C8, amended. A dry run keeps no record of the folders it has reported and creates none,
  so the test for the folder has the same answer before every item: the run prints that a
  category folder would be created once for every listed entry that is neither a
  directory nor hidden and is classified into that folder, when the folder does not exist
  at the start of the run, and never when it exists.
\<close>

theorem would_create_count:
  assumes "iterdir fs d = Inr names"
  shows "\<exists>r. organize fs d True = Some (r, Inr 0) \<and>
     (\<forall>folder. count_list (stdout r) (WouldCreateFolder (d @ [folder])) =
        (if exists fs (d @ [folder]) then 0
         else length (filter (\<lambda>n. \<not> is_dir fs (d @ [n]) \<and> \<not> startswith n ''.'' \<and>
                                   item_folder n = folder) names)))"
proof -
  from assms have dir: "exists fs d" "is_dir fs d"
    by (auto simp: iterdir_def is_dir_def exists_def split: option.splits node.splits)
  let ?r1 = "print (Organizing True d) \<lparr>disk = fs, stdout = [], stderr = []\<rparr>"
  from organize_items_dry [of d names ?r1] obtain out where
    out: "organize_items d True names ?r1 = Some (?r1\<lparr>stdout := stdout ?r1 @ out\<rparr>, Inr 0)"
    and cnt: "\<And>folder. count_list out (WouldCreateFolder (d @ [folder])) =
        (if exists (disk ?r1) (d @ [folder]) then 0
         else length (filter (\<lambda>n. \<not> is_dir (disk ?r1) (d @ [n]) \<and> \<not> startswith n ''.'' \<and>
                                   item_folder n = folder) names))"
    by blast
  show ?thesis
  proof (intro exI [of _ "?r1\<lparr>stdout := stdout ?r1 @ out\<rparr>"] conjI allI)
    show "organize fs d True = Some (?r1\<lparr>stdout := stdout ?r1 @ out\<rparr>, Inr 0)"
      using dir assms out by (simp add: organize_def)
  next
    fix folder
    show "count_list (stdout (?r1\<lparr>stdout := stdout ?r1 @ out\<rparr>)) (WouldCreateFolder (d @ [folder])) =
        (if exists fs (d @ [folder]) then 0
         else length (filter (\<lambda>n. \<not> is_dir fs (d @ [n]) \<and> \<not> startswith n ''.'' \<and>
                                   item_folder n = folder) names))"
      using cnt [of folder] by (simp add: print_def)
  qed
qed

theorem would_create_count_witness:
  "iterdir (Dir [(''a.txt'', File ''1''), (''b.txt'', File ''2'')]) [] = Inr [''a.txt'', ''b.txt''] \<and>
   (\<exists>r. organize (Dir [(''a.txt'', File ''1''), (''b.txt'', File ''2'')]) [] True = Some (r, Inr 0) \<and>
      count_list (stdout r) (WouldCreateFolder [''Documents'']) = 2)"
proof -
  let ?W = "Dir [(''a.txt'', File ''1''), (''b.txt'', File ''2'')]"
  have h: "iterdir ?W [] = Inr [''a.txt'', ''b.txt'']"
    by (simp add: iterdir_def)
  from would_create_count [OF h] obtain r where
    r: "organize ?W [] True = Some (r, Inr 0)"
    and cnt: "\<And>folder. count_list (stdout r) (WouldCreateFolder ([] @ [folder])) =
        (if exists ?W ([] @ [folder]) then 0
         else length (filter (\<lambda>n. \<not> is_dir ?W ([] @ [n]) \<and> \<not> startswith n ''.'' \<and>
                                   item_folder n = folder) [''a.txt'', ''b.txt'']))"
    by blast
  have "count_list (stdout r) (WouldCreateFolder [''Documents'']) = 2"
    using cnt [of "''Documents''"]
    by (simp add: exists_def is_dir_def startswith_def item_folder_a_txt item_folder_b_txt)
  with h r show ?thesis by blast
qed

section \<open>Operations below a directory\<close>

text \<open>
  An operation on a path below an existing directory \<open>d\<close> acts on the subtree at \<open>d\<close>
  and leaves the rest of the filesystem as it is: with the subtree \<open>X\<close> at \<open>d\<close>, the
  filesystem is \<open>put fs d X\<close> before and \<open>put fs d X'\<close> after.
\<close>

lemma exists_Cons:
  "exists (Dir es) (n # p) = (case map_of es n of None \<Rightarrow> False | Some ch \<Rightarrow> exists ch p)"
  by (simp add: exists_def split: option.splits)

lemma not_exists_File: "\<not> exists (File c) (n # p)"
  by (simp add: exists_def)

lemma lookup_put:
  "exists fs d \<Longrightarrow> lookup (put fs d X) (d @ q) = lookup X q"
proof (induction fs d X rule: put.induct)
  case (1 fs nd)
  show ?case by simp
next
  case (2 c n p nd)
  then show ?case by (simp add: not_exists_File)
next
  case (3 es n p nd)
  then show ?case
    by (auto simp: exists_Cons update_conv' split: option.splits)
qed

lemma put_put:
  "exists fs d \<Longrightarrow> put (put fs d X) (d @ q) y = put fs d (put X q y)"
proof (induction fs d X rule: put.induct)
  case (1 fs nd)
  show ?case by simp
next
  case (2 c n p nd)
  then show ?case by (simp add: not_exists_File)
next
  case (3 es n p nd)
  then show ?case
    by (auto simp: exists_Cons update_conv' split: option.splits)
qed

lemma del_put:
  "exists fs d \<Longrightarrow> q \<noteq> [] \<Longrightarrow> del (put fs d X) (d @ q) = put fs d (del X q)"
proof (induction fs d X rule: put.induct)
  case (1 fs nd)
  show ?case by simp
next
  case (2 c n p nd)
  then show ?case by (simp add: not_exists_File)
next
  case (3 es n p nd)
  then show ?case
    by (auto simp: exists_Cons update_conv' split: option.splits)
qed

lemma mkdir_put:
  "exists fs d \<Longrightarrow> mkdir (put fs d X) (d @ q) =
     (case mkdir X q of Inl e \<Rightarrow> Inl e | Inr X' \<Rightarrow> Inr (put fs d X'))"
proof (induction fs d X rule: put.induct)
  case (1 fs nd)
  show ?case by (simp split: sum.splits)
next
  case (2 c n p nd)
  then show ?case by (simp add: not_exists_File)
next
  case (3 es n p nd)
  then show ?case
    by (auto simp: exists_Cons update_conv' split: option.splits sum.splits)
qed

lemma put_the_lookup: "exists fs d \<Longrightarrow> put fs d (the (lookup fs d)) = fs"
proof (induction fs d rule: lookup.induct)
  case (1 nd)
  show ?case by simp
next
  case (2 c n p)
  then show ?case by (simp add: not_exists_File)
next
  case (3 es n p)
  then show ?case
    by (auto simp: exists_Cons update_triv split: option.splits)
qed

lemma exists_put: "exists fs d \<Longrightarrow> exists (put fs d X) (d @ q) = exists X q"
  by (simp add: exists_def lookup_put)

lemma is_dir_put: "exists fs d \<Longrightarrow> is_dir (put fs d X) (d @ q) = is_dir X q"
  by (simp add: is_dir_def lookup_put)

lemma unique_target_put:
  assumes "exists fs d"
  shows "unique_target (put fs d X) (d @ q) name = map_option ((@) d) (unique_target X q name)"
proof (cases "exists X (q @ [name])")
  case False
  with assms show ?thesis
    using exists_put [of fs d X "q @ [name]"] by (simp add: unique_target_def)
next
  case True
  from loop_returns [of 1 X q "stem name" "suffix name"] obtain k where
    k: "1 \<le> k"
      "unique_target_loop X q (stem name) (suffix name) 1 =
         Some (q @ [candidate_name (stem name) k (suffix name)])"
      "\<not> exists X (q @ [candidate_name (stem name) k (suffix name)])"
      "\<And>j. 1 \<le> j \<Longrightarrow> j < k \<Longrightarrow> exists X (q @ [candidate_name (stem name) j (suffix name)])"
    by blast
  have ex: "\<And>n. exists (put fs d X) (d @ q @ [n]) = exists X (q @ [n])"
    by (rule exists_put [OF assms])
  have "unique_target_loop (put fs d X) (d @ q) (stem name) (suffix name) 1 =
      Some ((d @ q) @ [candidate_name (stem name) k (suffix name)])"
    using k by (intro loop_first_free) (simp_all add: ex)
  with k(2) True ex [of name] show ?thesis by (simp add: unique_target_def)
qed

lemma shutil_move_put:
  assumes "exists fs d" and "s \<noteq> []" and "t \<noteq> []"
  shows "shutil_move (put fs d X) (d @ s) (d @ t) =
     (case shutil_move X s t of Inl e \<Rightarrow> Inl e | Inr X' \<Rightarrow> Inr (put fs d X'))"
proof -
  let ?rd = "if is_dir X t then t @ [last s] else t"
  have rd: "(if is_dir (put fs d X) (d @ t) then (d @ t) @ [last (d @ s)] else d @ t) = d @ ?rd"
    using assms by (simp add: is_dir_put)
  have ne: "?rd \<noteq> []" using assms by simp
  have tk: "(take (length (d @ s)) (d @ ?rd) = d @ s) = (take (length s) ?rd = s)"
    by simp
  have bl: "butlast (d @ ?rd) = d @ butlast ?rd"
    using ne by (simp add: butlast_append)
  show ?thesis
    unfolding shutil_move_def rd Let_def tk bl
    using assms ne
    by (simp add: is_dir_put exists_put lookup_put del_put put_put
        split: option.splits)
qed

section \<open>Properties of the organizer: live runs\<close>

lemma exists_single: "exists (Dir es) [n] = (map_of es n \<noteq> None)"
  by (simp add: exists_def split: option.splits)

lemma is_dir_single:
  "is_dir (Dir es) [n] = (case map_of es n of Some (Dir cs) \<Rightarrow> True | _ \<Rightarrow> False)"
  by (simp add: is_dir_def split: option.splits)

lemma mkdir_single:
  "map_of es f = None \<Longrightarrow> mkdir (Dir es) [f] = Inr (Dir (AList.update f (Dir []) es))"
  by simp

lemma shutil_move_single:
  assumes "shutil_move (Dir es) [n] [f, x] = Inr X'" and nx: "\<not> exists (Dir es) [f, x]"
  shows "\<exists>es'. X' = Dir es' \<and>
    (\<forall>m c. map_of es' m = Some (File c) \<longrightarrow> m \<noteq> n \<and> map_of es m = Some (File c))"
proof -
  from nx have nd: "\<not> is_dir (Dir es) [f, x]"
    by (simp add: exists_def is_dir_def)
  from assms nd obtain nd' where src: "map_of es n = Some nd'"
    and notin: "\<not> (is_dir (Dir es) [n] \<and> f = n)"
    and par: "is_dir (Dir es) [f]"
    and res: "X' = put (del (Dir es) [n]) [f, x] nd'"
    by (auto simp: shutil_move_def Let_def split: if_splits option.splits)
  from par obtain cs where cs: "map_of es f = Some (Dir cs)"
    by (auto simp: is_dir_single split: option.splits node.splits)
  from cs src notin have fn: "f \<noteq> n"
    by (auto simp: is_dir_single)
  from res cs fn have "X' = Dir (AList.update f (Dir (AList.update x nd' cs)) (AList.delete n es))"
    by (simp add: delete_conv')
  then show ?thesis
    by (auto simp: update_conv' delete_conv' split: if_splits)
qed

lemma organize_item_live_step:
  assumes e: "exists fs d"
    and d: "disk r = put fs d (Dir es)"
    and s: "organize_item d False n r = Some (r', None)"
  shows "\<exists>es'. disk r' = put fs d (Dir es') \<and>
    (\<forall>m c. map_of es' m = Some (File c) \<longrightarrow>
       map_of es m = Some (File c) \<and> (m \<noteq> n \<or> startswith n ''.''))"
proof (cases "is_dir (Dir es) [n] \<or> startswith n ''.''")
  case True
  with s d e have "r' = r"
    using is_dir_put [OF e, of "Dir es" "[n]"]
    by (auto simp: organize_item_def Let_def split: if_splits)
  with d True show ?thesis
    by (auto simp: is_dir_single)
next
  case False
  let ?f = "item_folder n"
  define es1 where "es1 = (if map_of es ?f = None then AList.update ?f (Dir []) es else es)"
  define r1 where "r1 = (if map_of es ?f = None
      then print (CreatedFolder (d @ [?f])) (r\<lparr>disk := put fs d (Dir es1)\<rparr>) else r)"
  have es1: "\<And>m c. map_of es1 m = Some (File c) \<Longrightarrow> map_of es m = Some (File c)"
    by (auto simp: es1_def update_conv' split: if_splits)
  have dr1: "disk r1 = put fs d (Dir es1)"
    by (simp add: r1_def es1_def d print_def)
  have ex: "exists (disk r) (d @ [?f]) = (map_of es ?f \<noteq> None)"
    using exists_put [OF e, of "Dir es" "[?f]"] by (simp add: exists_single d)
  have mk: "map_of es ?f = None \<Longrightarrow> mkdir (disk r) (d @ [?f]) = Inr (put fs d (Dir es1))"
    using mkdir_put [OF e, of "Dir es" "[?f]"] by (simp add: es1_def d)
  have made: "(if \<not> exists (disk r) (d @ [?f])
       then case mkdir (disk r) (d @ [?f]) of
              Inl e \<Rightarrow> Inl e
            | Inr fs' \<Rightarrow> Inr (print (CreatedFolder (d @ [?f])) (r\<lparr>disk := fs'\<rparr>))
       else Inr r) = Inr r1"
  proof (cases "map_of es ?f = None")
    case True
    with ex mk [OF True] show ?thesis by (simp add: r1_def)
  next
    case False
    with ex show ?thesis by (auto simp: r1_def)
  qed
  from unique_target_fresh [of "Dir es1" "[?f]" n] obtain x where
    x: "unique_target (Dir es1) [?f] n = Some [?f, x]" and nx: "\<not> exists (Dir es1) [?f, x]"
    by auto
  have ut: "unique_target (disk r1) (d @ [?f]) n = Some (d @ [?f, x])"
    using unique_target_put [OF e, of "Dir es1" "[?f]" n] x by (simp add: dr1)
  have mv: "shutil_move (disk r1) (d @ [n]) (d @ [?f, x]) =
      (case shutil_move (Dir es1) [n] [?f, x] of Inl e \<Rightarrow> Inl e | Inr X' \<Rightarrow> Inr (put fs d X'))"
    unfolding dr1 by (rule shutil_move_put [OF e]) simp_all
  have rel: "relative_to (d @ [?f, x]) d = Inr [?f, x]"
    by (rule relative_to_append)
  have nd: "\<not> is_dir (disk r) (d @ [n])"
    using False is_dir_put [OF e, of "Dir es" "[n]"] by (simp add: d)
  have "organize_item d False n r =
      (case shutil_move (Dir es1) [n] [?f, x] of
         Inl e \<Rightarrow> Some (r1, Some e)
       | Inr X' \<Rightarrow> Some (print (Moved n [?f, x]) (r1\<lparr>disk := put fs d X'\<rparr>), None))"
    using nd False
    by (simp add: organize_item_def Let_def made ut mv rel cong del: if_weak_cong
        split: sum.splits)
  with s obtain X' where X': "shutil_move (Dir es1) [n] [?f, x] = Inr X'"
    and r': "disk r' = put fs d X'"
    by (auto simp: print_def split: sum.splits)
  from shutil_move_single [OF X' nx] obtain es' where
    "X' = Dir es'"
    "\<And>m c. map_of es' m = Some (File c) \<Longrightarrow> m \<noteq> n \<and> map_of es1 m = Some (File c)"
    by blast
  with r' es1 show ?thesis by blast
qed

lemma organize_items_live_inv:
  assumes e: "exists fs d"
  shows "disk r = put fs d (Dir es) \<Longrightarrow>
    organize_items d False ns r = Some (r', Inr st) \<Longrightarrow>
    (\<And>m c. map_of es m = Some (File c) \<Longrightarrow> \<not> startswith m ''.'' \<Longrightarrow> m \<in> set ns) \<Longrightarrow>
    \<exists>es'. disk r' = put fs d (Dir es') \<and>
      (\<forall>m c. map_of es' m = Some (File c) \<longrightarrow> startswith m ''.'')"
proof (induction ns arbitrary: r es)
  case Nil
  from Nil.prems(2) have "disk r' = disk r" by (auto simp: print_def)
  with Nil.prems(1) Nil.prems(3) show ?case by fastforce
next
  case (Cons n ns)
  from Cons.prems(2) obtain r1 where
    step: "organize_item d False n r = Some (r1, None)"
    and rest: "organize_items d False ns r1 = Some (r', Inr st)"
    by (auto split: option.splits prod.splits)
  from organize_item_live_step [OF e Cons.prems(1) step] obtain es1 where
    d1: "disk r1 = put fs d (Dir es1)"
    and f1: "\<And>m c. map_of es1 m = Some (File c) \<Longrightarrow>
       map_of es m = Some (File c) \<and> (m \<noteq> n \<or> startswith n ''.'')"
    by blast
  have inv: "\<And>m c. map_of es1 m = Some (File c) \<Longrightarrow> \<not> startswith m ''.'' \<Longrightarrow> m \<in> set ns"
  proof -
    fix m c assume m: "map_of es1 m = Some (File c)" and nh: "\<not> startswith m ''.''"
    from f1 [OF m] have a: "map_of es m = Some (File c)" and b: "m \<noteq> n \<or> startswith n ''.''"
      by simp_all
    from Cons.prems(3) [OF a nh] have "m \<in> set (n # ns)" .
    with b nh show "m \<in> set ns" by auto
  qed
  show ?case
  proof (rule Cons.IH [OF d1 rest])
    fix m c assume "map_of es1 m = Some (File c)" and "\<not> startswith m ''.''"
    then show "m \<in> set ns" by (rule inv)
  qed
qed

lemma organize_items_skip_all:
  "(\<And>n. n \<in> set ns \<Longrightarrow> is_dir (disk r) (d @ [n]) \<or> startswith n ''.'') \<Longrightarrow>
   organize_items d dry_run ns r = Some (print Done r, Inr 0)"
proof (induction ns)
  case Nil
  show ?case by simp
next
  case (Cons n ns)
  from Cons.prems [of n] have "organize_item d dry_run n r = Some (r, None)"
    by (auto simp: organize_item_def Let_def)
  with Cons show ?case by simp
qed

lemma iterdir_is_dir:
  "exists fs d \<and> is_dir fs d \<Longrightarrow> \<exists>es. lookup fs d = Some (Dir es) \<and> iterdir fs d = Inr (map fst es)"
  by (auto simp: iterdir_def is_dir_def split: option.splits node.splits)

text \<open>
  C10. When a live run returns 0, a second live run on the filesystem it leaves moves no
  file and creates no folder: it prints only its first and last line, returns 0 and
  leaves the filesystem as it is. After the first run every entry of the root is a
  directory or hidden (\<open>organize_items_live_inv\<close>), and the second run skips them all.
\<close>

theorem organize_idempotent:
  assumes "organize fs d False = Some (r, Inr 0)"
  shows "organize (disk r) d False =
    Some (\<lparr>disk = disk r, stdout = [Organizing False d, Done], stderr = []\<rparr>, Inr 0)"
proof -
  from assms have ok: "exists fs d \<and> is_dir fs d"
    by (auto simp: organize_def Let_def split: if_splits)
  then have e: "exists fs d" by simp
  from iterdir_is_dir [OF ok] obtain es where
    es: "lookup fs d = Some (Dir es)" and names: "iterdir fs d = Inr (map fst es)"
    by blast
  let ?r1 = "print (Organizing False d) \<lparr>disk = fs, stdout = [], stderr = []\<rparr>"
  from put_the_lookup [OF e] es have "disk ?r1 = put fs d (Dir es)"
    by (simp add: print_def)
  moreover from assms ok names have "organize_items d False (map fst es) ?r1 = Some (r, Inr 0)"
    by (simp add: organize_def)
  moreover have "\<And>m c. map_of es m = Some (File c) \<Longrightarrow> \<not> startswith m ''.'' \<Longrightarrow>
      m \<in> set (map fst es)"
    by (auto dest!: map_of_SomeD intro: rev_image_eqI)
  ultimately obtain es' where
    d': "disk r = put fs d (Dir es')"
    and hid: "\<And>m c. map_of es' m = Some (File c) \<Longrightarrow> startswith m ''.''"
    using organize_items_live_inv [OF e, of ?r1 es "map fst es" r 0] by blast
  have lk: "lookup (disk r) d = Some (Dir es')"
    using lookup_put [OF e, of "Dir es'" "[]"] d' by simp
  then have ok': "exists (disk r) d" "is_dir (disk r) d"
    by (simp_all add: exists_def is_dir_def)
  from lk have names': "iterdir (disk r) d = Inr (map fst es')"
    by (simp add: iterdir_def)
  let ?r2 = "print (Organizing False d) \<lparr>disk = disk r, stdout = [], stderr = []\<rparr>"
  have skip: "\<And>n. n \<in> set (map fst es') \<Longrightarrow> is_dir (disk ?r2) (d @ [n]) \<or> startswith n ''.''"
  proof -
    fix n assume "n \<in> set (map fst es')"
    then obtain v where v: "map_of es' n = Some v"
      by (cases "map_of es' n") (auto simp: map_of_eq_None_iff)
    have dir: "is_dir (disk ?r2) (d @ [n]) = is_dir (Dir es') [n]"
      using is_dir_put [OF e, of "Dir es'" "[n]"] d' by (simp add: print_def)
    show "is_dir (disk ?r2) (d @ [n]) \<or> startswith n ''.''"
    proof (cases v)
      case (File c)
      with v hid show ?thesis by blast
    next
      case (Dir cs)
      with v dir show ?thesis by (simp add: is_dir_single)
    qed
  qed
  from organize_items_skip_all [of "map fst es'" ?r2 d False, OF skip]
  have "organize_items d False (map fst es') ?r2 = Some (print Done ?r2, Inr 0)" .
  with ok' names' show ?thesis
    by (simp add: organize_def print_def)
qed

end
